theory Spec2Isabelle
  imports Complex_Main "HOL-Library.Multiset" "HOL-Library.Sublist" "HOL-Library.AList"
begin

section \<open>SalesBot notebook: review aggregation, summarization, ingestion, retrieval\<close>

text \<open>
  The notebook \<^verbatim>\<open>SalesBot.ipynb\<close> is a straight-line script over three hosted
  services (a chat-completion endpoint, a vector store, a JSON parser of the standard
  library). The script's own logic is embedded below as HOL functions. A hosted service
  is a parameter of the function that calls it; where the script calls a service more
  than once, the state of the service is passed from call to call, so that the service
  may answer each call differently. The calls the script makes are recorded in a trace,
  so that "which calls were made, with what" is a statement about the value the model
  returns. An exception is a value of type \<open>py_error\<close>; \<^verbatim>\<open>NameError\<close>,
  \<^verbatim>\<open>IndexError\<close>, \<^verbatim>\<open>KeyError\<close> and \<^verbatim>\<open>TypeError\<close> are raised by the script
  itself, the others come from the services.
\<close>

subsection \<open>Python values and errors\<close>

datatype py_error =
  NameError | IndexError | KeyError | TypeError | JSONDecodeError | ServiceError string

text \<open>
  What \<^verbatim>\<open>json.loads\<close> can return. A dict keeps the order of its keys. No statement
  below looks inside a number.
\<close>

datatype json = JNull | JBool bool | JNum int | JStr string
  | JArr "json list" | JObj "(string \<times> json) list"

text \<open>Python's \<^verbatim>\<open>xs[0:k]\<close>: a negative bound counts from the end.\<close>

definition slice_to :: "int \<Rightarrow> 'a list \<Rightarrow> 'a list" where
  "slice_to k xs =
     (if k < 0 then take (nat (int (length xs) + k)) xs else take (nat k) xs)"

subsection \<open>Stage 1: the review aggregator\<close>

text \<open>
  One row of the data frame read from the CSV file; the three columns the script uses.
\<close>

record review_row =
  asin :: string
  reviewText :: string
  unixReviewTime :: int

definition sorted_desc :: "review_row list \<Rightarrow> bool" where
  "sorted_desc rows = sorted_wrt (\<lambda>x y. unixReviewTime y \<le> unixReviewTime x) rows"

text \<open>
  \<^verbatim>\<open>.sort_values(["unixReviewTime"], axis=0, ascending=False)\<close> is the sort of the
  pandas library, a parameter \<open>sort_values\<close> of the functions below. Its default sort
  kind is not stable, so the order it gives to rows with equal timestamps is left open.
  What is known of it is \<open>sorts_desc\<close>: it returns the same rows, ordered by timestamp
  descending.
\<close>

definition sorts_desc :: "(review_row list \<Rightarrow> review_row list) \<Rightarrow> bool" where
  "sorts_desc sort_values =
     (\<forall>rows. mset (sort_values rows) = mset rows \<and> sorted_desc (sort_values rows))"

text \<open>
  \<^verbatim>\<open>df.loc[df['asin'] == asin].sort_values(...).reviewText.tolist()\<close>
\<close>

definition reviews_of ::
  "(review_row list \<Rightarrow> review_row list) \<Rightarrow> review_row list \<Rightarrow> string \<Rightarrow> string list" where
  "reviews_of sort_values df a =
     map reviewText (sort_values (filter (\<lambda>r. asin r = a) df))"

text \<open>
  The loop \<^verbatim>\<open>for asin in ...: review_dict[asin] = reviews\<close> of cell 16, over the
  identifiers it iterates on. A Python dict keeps insertion order, and assigning to a key
  that is present keeps its position: that is \<^const>\<open>AList.update\<close> on an association
  list.
\<close>

fun aggregate_loop ::
  "(review_row list \<Rightarrow> review_row list) \<Rightarrow> review_row list \<Rightarrow> string list \<Rightarrow>
   (string \<times> string list) list \<Rightarrow> (string \<times> string list) list"
where
  "aggregate_loop sort_values df [] review_dict = review_dict"
| "aggregate_loop sort_values df (a # rest) review_dict =
     aggregate_loop sort_values df rest
       (AList.update a (reviews_of sort_values df a) review_dict)"

text \<open>
  Cell 16: \<^verbatim>\<open>review_dict = {}\<close>, then the loop over
  \<^verbatim>\<open>asin_list[0:product_record_limit]\<close>. The cell reads the name \<^verbatim>\<open>asin_list\<close> from the
  namespace of the kernel; the first argument is what the name is bound to there,
  \<open>None\<close> when it is not bound. Reading a name that is not bound raises
  \<^verbatim>\<open>NameError\<close>, after \<^verbatim>\<open>review_dict\<close> was set to the empty dict. The result is the
  exception, if any, and \<^verbatim>\<open>review_dict\<close> as the cell leaves it.
\<close>

definition aggregate_cell ::
  "(review_row list \<Rightarrow> review_row list) \<Rightarrow> string list option \<Rightarrow> review_row list \<Rightarrow> int \<Rightarrow>
   py_error option \<times> (string \<times> string list) list"
where
  "aggregate_cell sort_values asin_list df product_record_limit =
     (case asin_list of
        None \<Rightarrow> (Some NameError, [])
      | Some ids \<Rightarrow>
          (None, aggregate_loop sort_values df (slice_to product_record_limit ids) []))"

text \<open>
  The aggregator of the notebook as it is, its code cells run in order. No code cell
  assigns \<^verbatim>\<open>asin_list\<close>: the line \<^verbatim>\<open>asin_list = df.asin.unique()\<close> stands in cell 14,
  which is a markdown cell and is never run. So cell 16 runs with the name not bound.
\<close>

definition aggregate ::
  "(review_row list \<Rightarrow> review_row list) \<Rightarrow> review_row list \<Rightarrow> int \<Rightarrow>
   py_error option \<times> (string \<times> string list) list"
where
  "aggregate sort_values df product_record_limit =
     aggregate_cell sort_values None df product_record_limit"

text \<open>
  \<^verbatim>\<open>df.asin.unique()\<close>, the distinct values in order of first appearance: what the line
  of markdown cell 14 would bind \<^verbatim>\<open>asin_list\<close> to, were it run as code. It is used
  below only to say what cell 16 does in that case.
\<close>

fun unique_from :: "'a list \<Rightarrow> 'a list \<Rightarrow> 'a list" where
  "unique_from seen [] = []"
| "unique_from seen (x # xs) =
     (if x \<in> set seen then unique_from seen xs else x # unique_from (x # seen) xs)"

definition unique :: "'a list \<Rightarrow> 'a list" where
  "unique xs = unique_from [] xs"

text \<open>The position of the first occurrence of a value in a list.\<close>

definition first_pos :: "'a \<Rightarrow> 'a list \<Rightarrow> nat" where
  "first_pos a xs = length (takeWhile (\<lambda>x. x \<noteq> a) xs)"

subsection \<open>The chat-completion endpoint\<close>

record message =
  role :: string
  content :: string

text \<open>
  The keyword arguments of \<^verbatim>\<open>client.chat.completions.create\<close> that the script
  passes. \<^verbatim>\<open>response_format\<close> is the pair of its \<^verbatim>\<open>type\<close> and the property names
  of the schema.
\<close>

record request =
  model :: string
  messages :: "message list"
  temperature :: int
  response_format :: "(string \<times> string list) option"
  max_tokens :: "int option"
  stream :: bool

text \<open>
  A completion is read only through \<^verbatim>\<open>response.choices[0].message.content\<close>: it is
  the list of its choices, each the content of its message (\<^verbatim>\<open>None\<close> is possible).
  A streamed chunk is read only through \<^verbatim>\<open>chunk.choices[0].delta.content\<close>: it is
  the list of its choices, each the content of its delta.
  The endpoint is a parameter: a function of the state of the service and the request,
  returning the completion or the exception raised, and the next state of the service.
\<close>

type_synonym completion = "string option list"
type_synonym chunk = "string option list"

text \<open>Python's \<^verbatim>\<open>sep.join(xs)\<close>.\<close>

fun join :: "string \<Rightarrow> string list \<Rightarrow> string" where
  "join sep [] = []"
| "join sep [x] = x"
| "join sep (x # y # ys) = x @ sep @ join sep (y # ys)"

definition nl :: string where
  "nl = [CHR 0x0A]"

subsection \<open>Stage 2: the summarizer\<close>

text \<open>The fields of the Pydantic model \<^verbatim>\<open>ProductRecord\<close>, in declaration order.\<close>

definition ProductRecord_fields :: "string list" where
  "ProductRecord_fields =
     [''description'', ''name'', ''review_summary'', ''ASIN'', ''features'']"

text \<open>
  \<^verbatim>\<open>template.format(asin = ..., reviews = ...)\<close>: the lines of the template, filled,
  and their text, the lines joined by newlines. The second argument is the text Python's
  \<^verbatim>\<open>str\<close> gives for the list of reviews.
\<close>

definition template_lines :: "string \<Rightarrow> string \<Rightarrow> string list" where
  \<open>template_lines a reviews =
     ['''',
      ''Here are product reviews for a music product with an ID of '' @ a @ ''.'',
      '' - Respond back only as only JSON!'',
      '' - Provide:'',
      ''     - the product "description",'',
      ''     - the product "name",'',
      ''     - a summary of all the reviews as "review_summary",'',
      ''     - the "ASIN" and'',
      ''     - and the product "features" based on the content of these reviews. '',
      '' - The "features" should be a string describing the features and NOT JSON. '',
      '' - Do not include the ASIN in the description field.'',
      '' '',
      ''The reviews for the product are: '' @ reviews,
      '''']\<close>

definition template_format :: "string \<Rightarrow> string \<Rightarrow> string" where
  "template_format a reviews = join nl (template_lines a reviews)"

definition summary_request :: "string \<Rightarrow> string \<Rightarrow> request" where
  "summary_request a reviews =
     \<lparr>model = ''llama-2-70b-chat'',
      messages =
        [\<lparr>role = ''system'', content = ''You are a helpful assistant.''\<rparr>,
         \<lparr>role = ''user'', content = template_format a reviews\<rparr>],
      temperature = 0,
      response_format = Some (''json_object'', ProductRecord_fields),
      max_tokens = Some 1024,
      stream = False\<rparr>"

text \<open>
  \<^verbatim>\<open>summary["ASIN"] = asin\<close>: item assignment with a string key works on a dict only;
  on a list and on a scalar Python raises \<^verbatim>\<open>TypeError\<close>.
\<close>

fun set_item :: "json \<Rightarrow> string \<Rightarrow> json \<Rightarrow> py_error + json" where
  "set_item (JObj kvs) k v = Inr (JObj (AList.update k v kvs))"
| "set_item (JArr xs) k v = Inl TypeError"
| "set_item (JStr s) k v = Inl TypeError"
| "set_item (JNum n) k v = Inl TypeError"
| "set_item (JBool b) k v = Inl TypeError"
| "set_item JNull k v = Inl TypeError"

text \<open>What the script prints, one constructor for each \<^verbatim>\<open>print\<close> of the loop.\<close>

datatype log_line =
  Getting nat nat string
| Content "string option"
| Issue string

text \<open>
  The body of the \<^verbatim>\<open>try\<close>, once the arguments of the call are evaluated to the
  request \<open>req\<close>: the call, the print of the content, the parse and the overwrite of
  \<^verbatim>\<open>ASIN\<close>. It returns the summary or the exception, the lines printed and the next
  state of the service. \<^verbatim>\<open>loads(None)\<close> raises \<^verbatim>\<open>TypeError\<close>.
\<close>

definition try_body ::
  "('w \<Rightarrow> request \<Rightarrow> (py_error + completion) \<times> 'w) \<Rightarrow> (string \<Rightarrow> py_error + json) \<Rightarrow>
   'w \<Rightarrow> string \<Rightarrow> request \<Rightarrow> (py_error + json) \<times> log_line list \<times> 'w"
where
  "try_body create loads w a req =
     (case create w req of
        (Inl e, w') \<Rightarrow> (Inl e, [], w')
      | (Inr choices, w') \<Rightarrow>
          (case choices of
             [] \<Rightarrow> (Inl IndexError, [], w')
           | c # _ \<Rightarrow>
               (case c of
                  None \<Rightarrow> (Inl TypeError, [Content c], w')
                | Some text \<Rightarrow>
                    (case loads text of
                       Inl e \<Rightarrow> (Inl e, [Content c], w')
                     | Inr summary \<Rightarrow> (set_item summary ''ASIN'' (JStr a), [Content c], w')))))"

record 'w summarizer_state =
  review_summaries :: "json list"
  counter :: nat
  stdout :: "log_line list"
  sent :: "request list"
  llm :: 'w

text \<open>
  One iteration of \<^verbatim>\<open>for asin, review_list in review_dict.items()\<close>; \<open>n\<close> is
  \<^verbatim>\<open>len(review_dict)\<close>. The request embeds \<^verbatim>\<open>review_list[0:20]\<close>, as Python's
  \<^verbatim>\<open>str\<close> prints the list (\<open>str_list\<close>). The bare \<^verbatim>\<open>except\<close> catches every
  exception of the body. \<open>sent\<close> is the trace of the requests passed to the endpoint.
\<close>

definition summarize_step ::
  "('w \<Rightarrow> request \<Rightarrow> (py_error + completion) \<times> 'w) \<Rightarrow> (string \<Rightarrow> py_error + json) \<Rightarrow>
   (string list \<Rightarrow> string) \<Rightarrow> nat \<Rightarrow> string \<times> string list \<Rightarrow>
   'w summarizer_state \<Rightarrow> 'w summarizer_state"
where
  "summarize_step create loads str_list n p st =
     (case p of (a, review_list) \<Rightarrow>
        (let req = summary_request a (str_list (slice_to 20 review_list)) in
         case try_body create loads (llm st) a req of
           (Inr summary, out, w') \<Rightarrow>
             st\<lparr>review_summaries := review_summaries st @ [summary],
                counter := counter st + 1,
                stdout := stdout st @ [Getting (counter st) n a] @ out,
                sent := sent st @ [req],
                llm := w'\<rparr>
         | (Inl e, out, w') \<Rightarrow>
             st\<lparr>counter := counter st + 1,
                stdout := stdout st @ [Getting (counter st) n a] @ out @ [Issue a],
                sent := sent st @ [req],
                llm := w'\<rparr>))"

fun summarize_loop ::
  "('w \<Rightarrow> request \<Rightarrow> (py_error + completion) \<times> 'w) \<Rightarrow> (string \<Rightarrow> py_error + json) \<Rightarrow>
   (string list \<Rightarrow> string) \<Rightarrow> nat \<Rightarrow> (string \<times> string list) list \<Rightarrow>
   'w summarizer_state \<Rightarrow> 'w summarizer_state"
where
  "summarize_loop create loads str_list n [] st = st"
| "summarize_loop create loads str_list n (p # rest) st =
     summarize_loop create loads str_list n rest (summarize_step create loads str_list n p st)"

definition summarize ::
  "('w \<Rightarrow> request \<Rightarrow> (py_error + completion) \<times> 'w) \<Rightarrow> (string \<Rightarrow> py_error + json) \<Rightarrow>
   (string list \<Rightarrow> string) \<Rightarrow> 'w \<Rightarrow> (string \<times> string list) list \<Rightarrow> 'w summarizer_state"
where
  "summarize create loads str_list w review_dict =
     summarize_loop create loads str_list (length review_dict) review_dict
       \<lparr>review_summaries = [], counter = 0, stdout = [], sent = [], llm = w\<rparr>"

text \<open>
  The result of the \<^verbatim>\<open>try\<close> body for each product in turn, the state of the service
  threaded from one product to the next: the outcome the loop met at each product.
\<close>

fun outcomes ::
  "('w \<Rightarrow> request \<Rightarrow> (py_error + completion) \<times> 'w) \<Rightarrow> (string \<Rightarrow> py_error + json) \<Rightarrow>
   (string list \<Rightarrow> string) \<Rightarrow> (string \<times> string list) list \<Rightarrow> 'w \<Rightarrow>
   (string \<times> (py_error + json)) list"
where
  "outcomes create loads str_list [] w = []"
| "outcomes create loads str_list ((a, review_list) # rest) w =
     (case try_body create loads w a
             (summary_request a (str_list (slice_to 20 review_list))) of
        (r, out, w') \<Rightarrow> (a, r) # outcomes create loads str_list rest w')"

text \<open>The products whose body ran to its end, each with its record, in order.\<close>

fun succeeded :: "(string \<times> (py_error + json)) list \<Rightarrow> (string \<times> json) list" where
  "succeeded [] = []"
| "succeeded ((a, Inr s) # rest) = (a, s) # succeeded rest"
| "succeeded ((a, Inl e) # rest) = succeeded rest"

text \<open>The products whose body raised, in order.\<close>

fun failed :: "(string \<times> (py_error + json)) list \<Rightarrow> string list" where
  "failed [] = []"
| "failed ((a, Inr s) # rest) = failed rest"
| "failed ((a, Inl e) # rest) = a # failed rest"

text \<open>The products named by the \<^verbatim>\<open>Issue with ASIN ..., skipping\<close> lines of the output.\<close>

fun issues :: "log_line list \<Rightarrow> string list" where
  "issues [] = []"
| "issues (Issue a # rest) = a # issues rest"
| "issues (Getting i n a # rest) = issues rest"
| "issues (Content c # rest) = issues rest"

subsection \<open>Stage 3a: ingestion into the vector store\<close>

text \<open>
  An element of \<^verbatim>\<open>data_list\<close> is a dict read back from JSON. The dict literal of
  \<^verbatim>\<open>new_item\<close> reads the five keys in the order written; \<^verbatim>\<open>d[k]\<close> raises
  \<^verbatim>\<open>KeyError\<close> for a key that is absent.
\<close>

type_synonym item = "(string \<times> json) list"

definition get_item :: "item \<Rightarrow> string \<Rightarrow> py_error + json" where
  "get_item d k = (case map_of d k of None \<Rightarrow> Inl KeyError | Some v \<Rightarrow> Inr v)"

definition new_item :: "item \<Rightarrow> py_error + item" where
  "new_item d =
     (case get_item d ''ASIN'' of Inl e \<Rightarrow> Inl e | Inr v1 \<Rightarrow>
      case get_item d ''name'' of Inl e \<Rightarrow> Inl e | Inr v2 \<Rightarrow>
      case get_item d ''description'' of Inl e \<Rightarrow> Inl e | Inr v3 \<Rightarrow>
      case get_item d ''features'' of Inl e \<Rightarrow> Inl e | Inr v4 \<Rightarrow>
      case get_item d ''review_summary'' of Inl e \<Rightarrow> Inl e | Inr v5 \<Rightarrow>
        Inr [(''ASIN'', v1), (''name'', v2), (''description'', v3),
             (''features'', v4), (''review_summary'', v5)])"

text \<open>
  \<^verbatim>\<open>collection.data.insert_many\<close> is a parameter: from the state of the store and the
  batch it gives the exception raised, if any, and the next state of the store (a call
  that raises may have stored part of its batch). \<open>calls\<close> is the trace of the calls
  made: the batch passed and whether the call raised.
\<close>

record 'w ingest_state =
  items_to_insert :: "item list"
  calls :: "(item list \<times> py_error option) list"
  store :: 'w

definition call_insert_many ::
  "('w \<Rightarrow> item list \<Rightarrow> py_error option \<times> 'w) \<Rightarrow> 'w ingest_state \<Rightarrow>
   py_error option \<times> 'w ingest_state"
where
  "call_insert_many insert_many st =
     (case insert_many (store st) (items_to_insert st) of
        (r, w') \<Rightarrow> (r, st\<lparr>calls := calls st @ [(items_to_insert st, r)], store := w'\<rparr>))"

text \<open>
  The loop \<^verbatim>\<open>for d in data_list\<close>. An exception leaves the loop and the cell: the
  result is the exception and the state reached.
\<close>

fun ingest_loop ::
  "('w \<Rightarrow> item list \<Rightarrow> py_error option \<times> 'w) \<Rightarrow> item list \<Rightarrow> 'w ingest_state \<Rightarrow>
   py_error option \<times> 'w ingest_state"
where
  "ingest_loop insert_many [] st = (None, st)"
| "ingest_loop insert_many (d # rest) st =
     (case new_item d of
        Inl e \<Rightarrow> (Some e, st)
      | Inr it \<Rightarrow>
          (let st1 = st\<lparr>items_to_insert := items_to_insert st @ [it]\<rparr> in
           if length (items_to_insert st1) = 100 then
             (case call_insert_many insert_many st1 of
                (Some e, st2) \<Rightarrow> (Some e, st2)
              | (None, st2) \<Rightarrow> ingest_loop insert_many rest (st2\<lparr>items_to_insert := []\<rparr>))
           else ingest_loop insert_many rest st1))"

text \<open>The whole cell: the loop, then \<^verbatim>\<open>if len(items_to_insert) > 0: insert_many(...)\<close>.\<close>

definition ingest ::
  "('w \<Rightarrow> item list \<Rightarrow> py_error option \<times> 'w) \<Rightarrow> item list \<Rightarrow> 'w \<Rightarrow>
   py_error option \<times> 'w ingest_state"
where
  "ingest insert_many data_list w =
     (case ingest_loop insert_many data_list \<lparr>items_to_insert = [], calls = [], store = w\<rparr> of
        (Some e, st) \<Rightarrow> (Some e, st)
      | (None, st) \<Rightarrow>
          if length (items_to_insert st) > 0 then call_insert_many insert_many st
          else (None, st))"

text \<open>A record that has the five fields of \<^verbatim>\<open>ProductRecord\<close>.\<close>

definition is_product_record :: "item \<Rightarrow> bool" where
  "is_product_record d = list_all (\<lambda>k. map_of d k \<noteq> None) ProductRecord_fields"

text \<open>The state of the store after the given batches were passed to it, one after the other.\<close>

definition store_after ::
  "('w \<Rightarrow> item list \<Rightarrow> py_error option \<times> 'w) \<Rightarrow> 'w \<Rightarrow> item list list \<Rightarrow> 'w" where
  "store_after insert_many w batches = foldl (\<lambda>s b. snd (insert_many s b)) w batches"

subsection \<open>Stage 3b: retrieval\<close>

text \<open>
  \<^verbatim>\<open>collection.query.hybrid(query, limit)\<close> is a parameter: from the state of the store,
  the query and the limit it gives the objects returned (each read only through its
  \<^verbatim>\<open>properties\<close>) or the exception raised. \<open>str_props\<close> is Python's \<^verbatim>\<open>str\<close> on the
  properties of an object. The second component of the result of \<open>get_context\<close> is the
  trace of the queries made.
\<close>

definition get_context ::
  "('w \<Rightarrow> string \<Rightarrow> int \<Rightarrow> py_error + 'o list) \<Rightarrow> ('o \<Rightarrow> string) \<Rightarrow> 'w \<Rightarrow> string \<Rightarrow> int \<Rightarrow>
   (py_error + string) \<times> (string \<times> int) list"
where
  "get_context hybrid str_props w question limit =
     (case hybrid w question limit of
        Inl e \<Rightarrow> (Inl e, [(question, limit)])
      | Inr objects \<Rightarrow> (Inr (join nl (map str_props objects)), [(question, limit)]))"


subsection \<open>Stage 3c: the interactive assistant\<close>

text \<open>\<^verbatim>\<open>sales_template.format(question, context)\<close>, the template written line by line.\<close>

definition sales_template_format :: "string \<Rightarrow> string \<Rightarrow> string" where
  \<open>sales_template_format question context = join nl
     ['''',
      ''You are a sales assistant. Answer the user questions as helpfully as possible.'',
      ''Only recommend the products that are provided in the context provided below.'',
      '''',
      ''Provide a reference to each product you mention with hyperlinks:'',
      ''* Provide the name of the product'',
      ''* Embed the hyperlink in the name of the product as follows'',
      ''    * If the product name is "Solid Electric Guitar Case with Accessories Compartment"'',
      ''    * And the aSIN is "B001EL6I8W"'',
      ''    * Format the reference as follows: '',
      ''         [Solid Electric Guitar Case with Accessories Compartment](https://www.amazon.com/exec/obidos/ASIN/B001EL6I8W)'',
      '''',
      ''Finish with a references section.'',
      '''',
      ''Customer question: '' @ question,
      '''',
      ''Product context: '' @ context,
      '''',
      ''AI:'',
      '''']\<close>

text \<open>
  The loop \<^verbatim>\<open>for human, assistant in history\<close> of \<^verbatim>\<open>predict\<close>, appending to
  \<^verbatim>\<open>history_openai_format\<close>.
\<close>

fun history_loop :: "(string \<times> string) list \<Rightarrow> message list \<Rightarrow> message list" where
  "history_loop [] history_openai_format = history_openai_format"
| "history_loop ((human, assistant) # rest) history_openai_format =
     history_loop rest
       (history_openai_format
          @ [\<lparr>role = ''user'', content = human\<rparr>]
          @ [\<lparr>role = ''assistant'', content = assistant\<rparr>])"

definition predict_request :: "message list \<Rightarrow> request" where
  "predict_request history_openai_format =
     \<lparr>model = ''meta-llama-3-70b-instruct'',
      messages = history_openai_format,
      temperature = 0,
      response_format = None,
      max_tokens = None,
      stream = True\<rparr>"

text \<open>
  The loop \<^verbatim>\<open>for chunk in response\<close> of \<^verbatim>\<open>predict\<close>: the values yielded and the
  exception that ended the generator, if any. \<^verbatim>\<open>chunk.choices[0]\<close> raises
  \<^verbatim>\<open>IndexError\<close> on a chunk without choices.
\<close>

fun stream_loop :: "chunk list \<Rightarrow> string \<Rightarrow> string list \<times> py_error option" where
  "stream_loop [] partial_message = ([], None)"
| "stream_loop (ch # rest) partial_message =
     (case ch of
        [] \<Rightarrow> ([], Some IndexError)
      | delta # _ \<Rightarrow>
          (case delta of
             None \<Rightarrow> stream_loop rest partial_message
           | Some text \<Rightarrow>
               (case stream_loop rest (partial_message @ text) of
                  (ys, e) \<Rightarrow> ((partial_message @ text) # ys, e))))"

record predict_result =
  yielded :: "string list"
  raised :: "py_error option"
  queries :: "(string \<times> int) list"
  requests :: "request list"

text \<open>
  The generator \<^verbatim>\<open>predict(message, history)\<close>, run to its end. The streaming endpoint is
  a parameter: from the request it gives the chunks of the stream or the exception
  raised.
\<close>

definition predict ::
  "('w \<Rightarrow> string \<Rightarrow> int \<Rightarrow> py_error + 'o list) \<Rightarrow> ('o \<Rightarrow> string) \<Rightarrow>
   (request \<Rightarrow> py_error + chunk list) \<Rightarrow> 'w \<Rightarrow> string \<Rightarrow> (string \<times> string) list \<Rightarrow>
   predict_result"
where
  "predict hybrid str_props create_stream w message history =
     (let history_openai_format = history_loop history [] in
      case get_context hybrid str_props w message 5 of
        (Inl e, qs) \<Rightarrow> \<lparr>yielded = [], raised = Some e, queries = qs, requests = []\<rparr>
      | (Inr context, qs) \<Rightarrow>
          (let req = predict_request
                 (history_openai_format
                    @ [\<lparr>role = ''user'', content = sales_template_format message context\<rparr>]) in
           case create_stream req of
             Inl e \<Rightarrow> \<lparr>yielded = [], raised = Some e, queries = qs, requests = [req]\<rparr>
           | Inr chunks \<Rightarrow>
               (case stream_loop chunks [] of
                  (ys, e) \<Rightarrow> \<lparr>yielded = ys, raised = e, queries = qs, requests = [req]\<rparr>)))"

text \<open>The contents of the deltas of a stream, those that are not \<^verbatim>\<open>None\<close>, in order.\<close>

fun deltas :: "chunk list \<Rightarrow> string list" where
  "deltas [] = []"
| "deltas ([] # rest) = deltas rest"
| "deltas ((None # _) # rest) = deltas rest"
| "deltas ((Some text # _) # rest) = text # deltas rest"

subsection \<open>Concrete data for the instances below\<close>

text \<open>
  The scenario of the specification: product \<open>X1\<close> with 3 reviews and product \<open>X2\<close>
  with 25 reviews.
\<close>

definition example_df :: "review_row list" where
  "example_df =
     map (\<lambda>i. \<lparr>asin = ''X1'', reviewText = ''a'', unixReviewTime = int i\<rparr>) [0..<3]
     @ map (\<lambda>i. \<lparr>asin = ''X2'', reviewText = ''b'', unixReviewTime = int i\<rparr>) [0..<25]"

text \<open>
  A sort that meets \<open>sorts_desc\<close>: the rows reversed, sorted ascending by a stable
  sort, and reversed again.
\<close>

definition stable_sort_desc :: "review_row list \<Rightarrow> review_row list" where
  "stable_sort_desc rows = rev (sort_key unixReviewTime (rev rows))"

text \<open>Three products with interleaved rows.\<close>

definition interleaved_df :: "review_row list" where
  "interleaved_df =
     [\<lparr>asin = ''B2'', reviewText = ''p'', unixReviewTime = 5\<rparr>,
      \<lparr>asin = ''B1'', reviewText = ''q'', unixReviewTime = 7\<rparr>,
      \<lparr>asin = ''B2'', reviewText = ''r'', unixReviewTime = 9\<rparr>,
      \<lparr>asin = ''B3'', reviewText = ''t'', unixReviewTime = 1\<rparr>,
      \<lparr>asin = ''B1'', reviewText = ''s'', unixReviewTime = 2\<rparr>]"

text \<open>
  Three products and an endpoint that counts its calls: the first call raises, the second
  returns parsable text with an \<^verbatim>\<open>ASIN\<close> of its own, the third returns text that does
  not parse.
\<close>

definition example_review_dict :: "(string \<times> string list) list" where
  "example_review_dict =
     [(''A'', [''a1'', ''a2'']), (''B'', replicate 25 ''b''), (''C'', [])]"

definition scripted_create :: "nat \<Rightarrow> request \<Rightarrow> (py_error + completion) \<times> nat" where
  "scripted_create w req =
     (if w = 0 then Inl (ServiceError ''rate limit'')
      else if w = 1 then Inr [Some ''good'']
      else Inr [Some ''bad''], w + 1)"

definition scripted_loads :: "string \<Rightarrow> py_error + json" where
  "scripted_loads text =
     (if text = ''good''
      then Inr (JObj [(''name'', JStr ''Harmonica''), (''ASIN'', JStr ''WRONG'')])
      else Inl JSONDecodeError)"

text \<open>An endpoint whose state is the list of the requests it has received.\<close>

definition recording_create ::
  "request list \<Rightarrow> request \<Rightarrow> (py_error + completion) \<times> request list" where
  "recording_create w req = (Inr [Some ''good''], w @ [req])"

text \<open>The same mapping, with the reviews of \<open>B\<close> after the 20th replaced.\<close>

definition shortened_review_dict :: "(string \<times> string list) list" where
  "shortened_review_dict =
     [(''A'', [''a1'', ''a2'']), (''B'', replicate 20 ''b'' @ [''another review'']), (''C'', [])]"

text \<open>Every call of the trace returned normally.\<close>

definition calls_ok :: "(item list \<times> py_error option) list \<Rightarrow> bool" where
  "calls_ok cs = list_all (\<lambda>c. snd c = None) cs"

text \<open>
  A record with the five fields and one more; a store that appends every batch; a store
  that takes the first batch only and, on a later call, keeps 10 items and raises.
\<close>

definition example_record :: item where
  "example_record =
     [(''description'', JStr ''d''), (''name'', JStr ''n''), (''review_summary'', JStr ''s''),
      (''ASIN'', JStr ''B0''), (''features'', JStr ''f''), (''extra'', JNull)]"

definition appending_store :: "item list \<Rightarrow> item list \<Rightarrow> py_error option \<times> item list" where
  "appending_store s batch = (None, s @ batch)"

definition failing_store :: "item list \<Rightarrow> item list \<Rightarrow> py_error option \<times> item list" where
  "failing_store s batch =
     (if s = [] then (None, s @ batch)
      else (Some (ServiceError ''unavailable''), s @ take 10 batch))"

text \<open>What \<open>new_item\<close> makes of \<open>example_record\<close>.\<close>

definition example_item :: item where
  "example_item =
     [(''ASIN'', JStr ''B0''), (''name'', JStr ''n''), (''description'', JStr ''d''),
      (''features'', JStr ''f''), (''review_summary'', JStr ''s'')]"


text \<open>
  A store that holds the property dumps themselves and answers a query with its first
  \<open>limit\<close> objects; a chat history of two turns; a stream of five chunks, two of them
  without content.
\<close>

definition first_k :: "string list \<Rightarrow> string \<Rightarrow> int \<Rightarrow> py_error + string list" where
  "first_k w q k = (if k < 0 then Inl (ServiceError ''limit'') else Inr (take (nat k) w))"


definition example_store :: "string list" where
  \<open>example_store = [''{"ASIN": "B1"}'', ''{"ASIN": "B2"}'', ''{"ASIN": "B3"}'', ''{"ASIN": "B4"}'']\<close>

definition example_history :: "(string \<times> string) list" where
  "example_history = [(''hi'', ''Hello!''), (''a capo?'', ''Try [Capo](link)'')]"

definition example_chunks :: "chunk list" where
  "example_chunks = [[None], [Some ''Try''], [Some '' a''], [None], [Some '' tuner'']]"

section \<open>Properties\<close>

subsection \<open>The aggregator\<close>

lemma set_unique_from: "set (unique_from seen xs) = set xs - set seen"
  by (induction xs arbitrary: seen) auto

lemma distinct_unique_from: "distinct (unique_from seen xs)"
  by (induction xs arbitrary: seen) (auto simp: set_unique_from)

lemma set_unique: "set (unique xs) = set xs"
  by (simp add: unique_def set_unique_from)

lemma distinct_unique: "distinct (unique xs)"
  by (simp add: unique_def distinct_unique_from)

lemma length_unique: "length (unique xs) = card (set xs)"
  using distinct_card [OF distinct_unique, of xs] by (simp add: set_unique)

lemma first_pos_Cons:
  "first_pos a (x # xs) = (if x = a then 0 else Suc (first_pos a xs))"
  by (simp add: first_pos_def)

lemma first_pos_unique_from:
  "sorted_wrt (\<lambda>a b. first_pos a xs < first_pos b xs) (unique_from seen xs)"
proof (induction xs arbitrary: seen)
  case Nil
  show ?case by simp
next
  case (Cons x xs)
  have shift: "sorted_wrt (\<lambda>a b. first_pos a (x # xs) < first_pos b (x # xs)) (unique_from s xs)"
    if "x \<in> set s" for s
  proof (rule sorted_wrt_mono_rel [OF _ Cons.IH [of s]])
    fix a b
    assume "a \<in> set (unique_from s xs)" "b \<in> set (unique_from s xs)"
      and "first_pos a xs < first_pos b xs"
    with that show "first_pos a (x # xs) < first_pos b (x # xs)"
      by (auto simp: first_pos_Cons set_unique_from)
  qed
  show ?case
  proof (cases "x \<in> set seen")
    case True
    then show ?thesis using shift [of seen] by simp
  next
    case False
    have "\<forall>b \<in> set (unique_from (x # seen) xs). first_pos x (x # xs) < first_pos b (x # xs)"
      by (auto simp: first_pos_Cons set_unique_from)
    then show ?thesis using False shift [of "x # seen"] by simp
  qed
qed

lemma first_pos_unique:
  "sorted_wrt (\<lambda>a b. first_pos a xs < first_pos b xs) (unique xs)"
  by (simp add: unique_def first_pos_unique_from)

lemma slice_to_nonneg: "0 \<le> k \<Longrightarrow> slice_to k xs = take (nat k) xs"
  by (simp add: slice_to_def)

lemma sorts_desc_stable: "sorts_desc stable_sort_desc"
proof -
  have "sorted_desc (stable_sort_desc rows)" for rows
  proof -
    have "sorted (map unixReviewTime (sort_key unixReviewTime (rev rows)))"
      by (rule sorted_sort_key)
    then have "sorted_wrt (\<lambda>x y. unixReviewTime x \<le> unixReviewTime y)
        (sort_key unixReviewTime (rev rows))"
      by (simp add: sorted_map)
    then show ?thesis
      by (simp add: sorted_desc_def stable_sort_desc_def sorted_wrt_rev)
  qed
  then show ?thesis
    by (simp add: sorts_desc_def stable_sort_desc_def)
qed

lemma reviews_of_rows:
  assumes "sorts_desc sort_values"
  shows "\<exists>rows. reviews_of sort_values df a = map reviewText rows
     \<and> mset rows = mset (filter (\<lambda>r. asin r = a) df) \<and> sorted_desc rows"
    and "length (reviews_of sort_values df a) = length (filter (\<lambda>r. asin r = a) df)"
proof -
  let ?rows = "sort_values (filter (\<lambda>r. asin r = a) df)"
  from assms have m: "mset ?rows = mset (filter (\<lambda>r. asin r = a) df)"
    and s: "sorted_desc ?rows"
    by (simp_all add: sorts_desc_def)
  from m s show "\<exists>rows. reviews_of sort_values df a = map reviewText rows
     \<and> mset rows = mset (filter (\<lambda>r. asin r = a) df) \<and> sorted_desc rows"
    unfolding reviews_of_def by blast
  from m have "length ?rows = length (filter (\<lambda>r. asin r = a) df)"
    by (rule mset_eq_length)
  then show "length (reviews_of sort_values df a) = length (filter (\<lambda>r. asin r = a) df)"
    by (simp add: reviews_of_def)
qed

lemma aggregate_loop_fresh:
  "distinct ks \<Longrightarrow> set ks \<inter> fst ` set rd = {} \<Longrightarrow>
   aggregate_loop sort_values df ks rd = rd @ map (\<lambda>a. (a, reviews_of sort_values df a)) ks"
proof (induction ks arbitrary: rd)
  case Nil
  show ?case by simp
next
  case (Cons a ks)
  from Cons.prems have fresh: "a \<notin> fst ` set rd" by auto
  then have upd: "AList.update a v rd = rd @ [(a, v)]" for v
    by (induction rd) auto
  have "set ks \<inter> fst ` set (rd @ [(a, reviews_of sort_values df a)]) = {}"
    using Cons.prems by auto
  moreover have "distinct ks" using Cons.prems by simp
  ultimately have "aggregate_loop sort_values df ks (rd @ [(a, reviews_of sort_values df a)])
      = (rd @ [(a, reviews_of sort_values df a)])
          @ map (\<lambda>a. (a, reviews_of sort_values df a)) ks"
    by (rule Cons.IH [rotated])
  then show ?case by (simp add: upd)
qed



text \<open>
  What cell 16 does when \<^verbatim>\<open>asin_list\<close> is bound as the line of markdown cell 14 would
  bind it, for a limit \<open>l \<ge> 0\<close>: the mapping has \<open>min l (number of distinct product
  identifiers)\<close> keys, the first \<open>l\<close> distinct identifiers in dataset order, each mapped
  to the texts of that product's rows ordered by timestamp descending.
\<close>

lemma aggregator_contract_when_bound:
  assumes "0 \<le> l" and "sorts_desc sort_values"
    and "aggregate_cell sort_values (Some (unique (map asin df))) df l = (e, rd)"
  shows "e = None
    \<and> length rd = min (nat l) (card (asin ` set df))
    \<and> map fst rd = take (nat l) (unique (map asin df))
    \<and> distinct (map fst rd)
    \<and> set (map fst rd) \<subseteq> asin ` set df
    \<and> sorted_wrt (\<lambda>a b. first_pos a (map asin df) < first_pos b (map asin df)) (map fst rd)
    \<and> (\<forall>k \<in> set (map fst rd). \<forall>a \<in> asin ` set df - set (map fst rd).
           first_pos k (map asin df) < first_pos a (map asin df))
    \<and> (\<forall>(a, rs) \<in> set rd. \<exists>rows. rs = map reviewText rows
         \<and> mset rows = mset (filter (\<lambda>r. asin r = a) df) \<and> sorted_desc rows)"
proof -
  let ?ids = "map asin df"
  let ?u = "unique ?ids"
  let ?n = "nat l"
  let ?P = "\<lambda>a b. first_pos a ?ids < first_pos b ?ids"
  have d: "distinct (take ?n ?u)"
    by (simp add: distinct_unique)
  from assms(1,3) have e: "e = None"
    and rd: "rd = map (\<lambda>a. (a, reviews_of sort_values df a)) (take ?n ?u)"
    using aggregate_loop_fresh [OF d, of "[]" sort_values df]
    by (auto simp: aggregate_cell_def slice_to_nonneg)
  have keys: "map fst rd = take ?n ?u"
    by (simp add: rd comp_def)
  have len: "length rd = min ?n (card (asin ` set df))"
    using arg_cong [OF keys, of length] by (simp add: length_unique min.commute)
  have sub: "set (take ?n ?u) \<subseteq> asin ` set df"
    using set_take_subset [of ?n ?u] by (simp add: set_unique)
  have split: "sorted_wrt ?P (take ?n ?u @ drop ?n ?u)"
    using first_pos_unique [of ?ids] by simp
  then have srt: "sorted_wrt ?P (take ?n ?u)"
    unfolding sorted_wrt_append by blast
  have early: "\<forall>k \<in> set (take ?n ?u). \<forall>a \<in> asin ` set df - set (take ?n ?u). ?P k a"
  proof (intro ballI)
    fix k a
    assume k: "k \<in> set (take ?n ?u)" and a: "a \<in> asin ` set df - set (take ?n ?u)"
    have "set ?u = set (take ?n ?u) \<union> set (drop ?n ?u)"
      using set_append [of "take ?n ?u" "drop ?n ?u"] by simp
    with a have "a \<in> set (drop ?n ?u)" by (auto simp: set_unique)
    with k split show "?P k a" unfolding sorted_wrt_append by blast
  qed
  have vals: "\<forall>(a, rs) \<in> set rd. \<exists>rows. rs = map reviewText rows
         \<and> mset rows = mset (filter (\<lambda>r. asin r = a) df) \<and> sorted_desc rows"
    using reviews_of_rows(1) [OF assms(2), of df] by (auto simp: rd)
  show ?thesis
    using e len keys d sub srt early vals by simp
qed

text \<open>
  C3. The contract asks, for a dataset with products and a limit \<open>L \<ge> 1\<close>, for a mapping
  with \<open>min L (number of distinct products)\<close> keys. The aggregator of the notebook
  gives none: for every dataset, limit and library sort, cell 16 raises
  \<^verbatim>\<open>NameError\<close> at \<^verbatim>\<open>asin_list\<close> and leaves \<^verbatim>\<open>review_dict\<close> empty. At the dataset
  \<open>interleaved_df\<close> with limit 2 the contract asks for 2 keys and the mapping has 0.
\<close>

theorem aggregator_name_error:
  "aggregate sort_values df l = (Some NameError, [])
   \<and> length (snd (aggregate sort_values interleaved_df 2)) = 0
   \<and> min (nat 2) (card (asin ` set interleaved_df)) = 2"
proof -
  have "card (asin ` set interleaved_df) = 3"
    by code_simp
  then show ?thesis
    by (simp add: aggregate_def aggregate_cell_def)
qed




subsection \<open>The summarizer\<close>

lemma slice_to_20: "slice_to 20 xs = take 20 xs"
  by (simp add: slice_to_def)

lemma issues_append: "issues (xs @ ys) = issues xs @ issues ys"
  by (induction xs rule: issues.induct) simp_all

lemma try_body_issues:
  "try_body create loads w a req = (r, out, w') \<Longrightarrow> issues out = []"
  by (auto simp: try_body_def split: prod.splits sum.splits list.splits option.splits)

lemma summarize_step_fields:
  assumes "try_body create loads (llm st) a
      (summary_request a (str_list (take 20 review_list))) = (r, out, w')"
  shows "review_summaries (summarize_step create loads str_list n (a, review_list) st)
           = review_summaries st @ map snd (succeeded [(a, r)])"
    and "counter (summarize_step create loads str_list n (a, review_list) st) = Suc (counter st)"
    and "sent (summarize_step create loads str_list n (a, review_list) st)
           = sent st @ [summary_request a (str_list (take 20 review_list))]"
    and "issues (stdout (summarize_step create loads str_list n (a, review_list) st))
           = issues (stdout st) @ failed [(a, r)]"
    and "llm (summarize_step create loads str_list n (a, review_list) st) = w'"
  using assms try_body_issues [OF assms]
  by (cases r; simp add: summarize_step_def Let_def issues_append slice_to_20)+

lemma summarize_loop_fields:
  "review_summaries (summarize_loop create loads str_list n rd st)
     = review_summaries st @ map snd (succeeded (outcomes create loads str_list rd (llm st)))
   \<and> counter (summarize_loop create loads str_list n rd st) = counter st + length rd
   \<and> sent (summarize_loop create loads str_list n rd st)
     = sent st @ map (\<lambda>(a, rl). summary_request a (str_list (take 20 rl))) rd
   \<and> issues (stdout (summarize_loop create loads str_list n rd st))
     = issues (stdout st) @ failed (outcomes create loads str_list rd (llm st))"
proof (induction rd arbitrary: st)
  case Nil
  show ?case by simp
next
  case (Cons p rest)
  obtain a rl where p: "p = (a, rl)" by (cases p)
  obtain r out w' where b: "try_body create loads (llm st) a
      (summary_request a (str_list (take 20 rl))) = (r, out, w')"
    by (cases "try_body create loads (llm st) a (summary_request a (str_list (take 20 rl)))")
  note f = summarize_step_fields [where create = create and loads = loads and st = st
      and a = a and str_list = str_list and review_list = rl and r = r and out = out
      and w' = w' and n = n, OF b]
  have s: "succeeded ((a, r) # xs) = succeeded [(a, r)] @ succeeded xs" for xs
    by (cases r) simp_all
  have g: "failed ((a, r) # xs) = failed [(a, r)] @ failed xs" for xs
    by (cases r) simp_all
  show ?case
    using Cons.IH [of "summarize_step create loads str_list n (a, rl) st"]
    by (simp add: p b f slice_to_20 s [of "outcomes create loads str_list rest w'"]
        g [of "outcomes create loads str_list rest w'"])
qed

lemma summarize_fields:
  "review_summaries (summarize create loads str_list w rd)
     = map snd (succeeded (outcomes create loads str_list rd w))"
  "counter (summarize create loads str_list w rd) = length rd"
  "sent (summarize create loads str_list w rd)
     = map (\<lambda>(a, rl). summary_request a (str_list (take 20 rl))) rd"
  "issues (stdout (summarize create loads str_list w rd))
     = failed (outcomes create loads str_list rd w)"
  using summarize_loop_fields [of create loads str_list "length rd" rd
      "\<lparr>review_summaries = [], counter = 0, stdout = [], sent = [], llm = w\<rparr>"]
  by (simp_all add: summarize_def)

lemma outcomes_keys: "map fst (outcomes create loads str_list rd w) = map fst rd"
  by (induction rd arbitrary: w) (auto split: prod.splits)

lemma succeeded_failed_length: "length (succeeded os) + length (failed os) = length os"
  by (induction os rule: succeeded.induct) simp_all

text \<open>
  C1. Whatever the endpoint and the parser do at each product, the loop runs to the end
  of the mapping: the counter ends at the number of products and one request was sent
  for each of them. The collected sequence holds exactly the records of the products
  whose \<^verbatim>\<open>try\<close> body ran to its end, in the iteration order of the mapping; every other
  product, and no other, is named by a "skipping" line of the output, in the same order.
\<close>

theorem summarizer_failure_isolation:
  "review_summaries (summarize create loads str_list w rd)
     = map snd (succeeded (outcomes create loads str_list rd w))
   \<and> map fst (outcomes create loads str_list rd w) = map fst rd
   \<and> issues (stdout (summarize create loads str_list w rd))
     = failed (outcomes create loads str_list rd w)
   \<and> length (succeeded (outcomes create loads str_list rd w))
       + length (failed (outcomes create loads str_list rd w)) = length rd
   \<and> counter (summarize create loads str_list w rd) = length rd
   \<and> length (sent (summarize create loads str_list w rd)) = length rd"
proof -
  have "length (succeeded (outcomes create loads str_list rd w))
       + length (failed (outcomes create loads str_list rd w)) = length rd"
    using succeeded_failed_length [of "outcomes create loads str_list rd w"]
      arg_cong [OF outcomes_keys [of create loads str_list rd w], of length]
    by simp
  then show ?thesis
    by (simp add: summarize_fields outcomes_keys)
qed

theorem summarizer_failure_isolation_witness:
  "review_summaries (summarize scripted_create scripted_loads concat 0 example_review_dict)
     = [JObj [(''name'', JStr ''Harmonica''), (''ASIN'', JStr ''B'')]]
   \<and> issues (stdout (summarize scripted_create scripted_loads concat 0 example_review_dict))
     = [''A'', ''C'']
   \<and> counter (summarize scripted_create scripted_loads concat 0 example_review_dict) = 3"
proof -
  have s: "map snd (succeeded (outcomes scripted_create scripted_loads concat example_review_dict 0))
      = [JObj [(''name'', JStr ''Harmonica''), (''ASIN'', JStr ''B'')]]"
    by code_simp
  have f: "failed (outcomes scripted_create scripted_loads concat example_review_dict 0)
      = [''A'', ''C'']"
    by code_simp
  have l: "length example_review_dict = 3"
    by code_simp
  from summarizer_failure_isolation [of scripted_create scripted_loads concat 0 example_review_dict]
  show ?thesis unfolding s f l by blast
qed

lemma set_item_ASIN:
  "set_item summary k v = Inr s \<Longrightarrow> \<exists>kvs. s = JObj kvs \<and> map_of kvs k = Some v"
  by (cases summary) (auto simp: update_conv')

lemma try_body_ASIN:
  "try_body create loads w a req = (Inr s, out, w') \<Longrightarrow>
   \<exists>kvs. s = JObj kvs \<and> map_of kvs ''ASIN'' = Some (JStr a)"
  by (auto simp: try_body_def dest: set_item_ASIN
      split: prod.splits sum.splits list.splits option.splits)

lemma succeeded_outcomes_ASIN:
  "(a, s) \<in> set (succeeded (outcomes create loads str_list rd w)) \<Longrightarrow>
   \<exists>kvs. s = JObj kvs \<and> map_of kvs ''ASIN'' = Some (JStr a)"
proof (induction rd arbitrary: w)
  case Nil
  then show ?case by simp
next
  case (Cons p rest)
  obtain b rl where p: "p = (b, rl)" by (cases p)
  obtain r out w' where t: "try_body create loads w b
      (summary_request b (str_list (slice_to 20 rl))) = (r, out, w')"
    by (cases "try_body create loads w b (summary_request b (str_list (slice_to 20 rl)))")
  show ?case
  proof (cases r)
    case (Inl e)
    with Cons.prems p t have "(a, s) \<in> set (succeeded (outcomes create loads str_list rest w'))"
      by simp
    then show ?thesis by (rule Cons.IH)
  next
    case (Inr s')
    with Cons.prems p t
    have "(a, s) = (b, s') \<or> (a, s) \<in> set (succeeded (outcomes create loads str_list rest w'))"
      by simp
    then show ?thesis
    proof
      assume "(a, s) = (b, s')"
      with t Inr show ?thesis
        using try_body_ASIN [of create loads w b
            "summary_request b (str_list (slice_to 20 rl))" s' out w']
        by simp
    next
      assume "(a, s) \<in> set (succeeded (outcomes create loads str_list rest w'))"
      then show ?thesis by (rule Cons.IH)
    qed
  qed
qed

text \<open>
  C9. Every record the loop collects is a JSON object whose \<^verbatim>\<open>ASIN\<close> field is the
  identifier of the product the loop was at when it collected the record, whatever the
  parsed response held under \<^verbatim>\<open>ASIN\<close>.
\<close>

theorem asin_overwrite:
  "list_all2 (\<lambda>s a. \<exists>kvs. s = JObj kvs \<and> map_of kvs ''ASIN'' = Some (JStr a))
     (review_summaries (summarize create loads str_list w rd))
     (map fst (succeeded (outcomes create loads str_list rd w)))"
proof -
  let ?ok = "succeeded (outcomes create loads str_list rd w)"
  have "list_all2 (\<lambda>p q. \<exists>kvs. snd p = JObj kvs \<and> map_of kvs ''ASIN'' = Some (JStr (fst q)))
      ?ok ?ok"
    unfolding list_all2_same using succeeded_outcomes_ASIN [of _ _ create loads str_list rd w]
    by auto
  then show ?thesis
    by (simp add: summarize_fields list_all2_map1 list_all2_map2)
qed

theorem asin_overwrite_witness:
  "review_summaries (summarize scripted_create scripted_loads concat 0 example_review_dict)
     = [JObj [(''name'', JStr ''Harmonica''), (''ASIN'', JStr ''B'')]]
   \<and> map fst (succeeded (outcomes scripted_create scripted_loads concat example_review_dict 0))
     = [''B'']
   \<and> scripted_loads ''good'' = Inr (JObj [(''name'', JStr ''Harmonica''), (''ASIN'', JStr ''WRONG'')])
   \<and> (\<exists>kvs. JObj [(''name'', JStr ''Harmonica''), (''ASIN'', JStr ''B'')] = JObj kvs
         \<and> map_of kvs ''ASIN'' = Some (JStr ''B''))"
proof -
  have r: "review_summaries (summarize scripted_create scripted_loads concat 0 example_review_dict)
      = [JObj [(''name'', JStr ''Harmonica''), (''ASIN'', JStr ''B'')]]"
    by code_simp
  have k: "map fst (succeeded (outcomes scripted_create scripted_loads concat example_review_dict 0))
      = [''B'']"
    by code_simp
  have g: "scripted_loads ''good''
      = Inr (JObj [(''name'', JStr ''Harmonica''), (''ASIN'', JStr ''WRONG'')])"
    by code_simp
  from asin_overwrite [of scripted_create scripted_loads concat 0 example_review_dict]
  have "\<exists>kvs. JObj [(''name'', JStr ''Harmonica''), (''ASIN'', JStr ''B'')] = JObj kvs
         \<and> map_of kvs ''ASIN'' = Some (JStr ''B'')"
    unfolding r k by simp
  with r k g show ?thesis by blast
qed

lemma summarize_step_take:
  "summarize_step create loads str_list n (a, take 20 rl) st
     = summarize_step create loads str_list n (a, rl) st"
  by (simp add: summarize_step_def slice_to_20)

lemma summarize_loop_take:
  "summarize_loop create loads str_list n (map (\<lambda>(a, rl). (a, take 20 rl)) rd) st
     = summarize_loop create loads str_list n rd st"
proof (induction rd arbitrary: st)
  case Nil
  show ?case by simp
next
  case (Cons p rest)
  obtain a rl where p: "p = (a, rl)" by (cases p)
  show ?case by (simp add: p summarize_step_take Cons.IH)
qed

lemma summarize_take:
  "summarize create loads str_list w (map (\<lambda>(a, rl). (a, take 20 rl)) rd)
     = summarize create loads str_list w rd"
  by (simp add: summarize_def summarize_loop_take)

lemma join_Cons: "rest \<noteq> [] \<Longrightarrow> join sep (x # rest) = x @ sep @ join sep rest"
  by (cases rest) simp_all

lemma join_suffix: "ys \<noteq> [] \<Longrightarrow> suffix (join sep ys) (join sep (xs @ ys))"
proof (induction xs)
  case Nil
  show ?case by simp
next
  case (Cons x xs)
  from Cons.prems have "xs @ ys \<noteq> []" by simp
  then have "join sep ((x # xs) @ ys) = (x @ sep) @ join sep (xs @ ys)"
    by (simp add: join_Cons)
  with Cons.IH [OF Cons.prems] show ?case
    by (simp only: suffix_appendI)
qed

lemma template_format_suffix:
  "suffix (''The reviews for the product are: '' @ reviews @ nl) (template_format a reviews)"
proof -
  let ?tail = "[''The reviews for the product are: '' @ reviews, []]"
  let ?lines = "template_lines a reviews"
  have d: "drop 12 ?lines = ?tail"
    by (simp add: template_lines_def)
  have "take 12 ?lines @ drop 12 ?lines = ?lines"
    by (rule append_take_drop_id)
  then have "join nl ?lines = join nl (take 12 ?lines @ ?tail)"
    unfolding d by simp
  moreover have "suffix (join nl ?tail) (join nl (take 12 ?lines @ ?tail))"
    by (rule join_suffix) simp
  moreover have "join nl ?tail = ''The reviews for the product are: '' @ reviews @ nl"
    by simp
  ultimately show ?thesis
    by (simp only: template_format_def)
qed

text \<open>
  C4. For each product of the mapping, in order, one request is passed to the endpoint;
  its messages are the system message and one user message, the prompt, which is the
  template filled with the product identifier and the text of the first 20 entries of
  the product's review sequence. The prompt ends with the label of the reviews, the text
  of these entries and a newline. Nothing of the entries after the 20th is forwarded:
  two mappings that agree on the first 20 entries of every product give the same run of
  the summarizer, whatever follows these entries. When a review sequence is the texts of
  rows ordered by timestamp descending, its first 20 entries are the texts of the first
  20 of these rows, and no row after them is more recent than one of them.
\<close>

theorem summarizer_truncation:
  "sent (summarize create loads str_list w rd)
     = map (\<lambda>(a, rl). summary_request a (str_list (take 20 rl))) rd
   \<and> map (\<lambda>rq. map content (messages rq)) (sent (summarize create loads str_list w rd))
     = map (\<lambda>(a, rl). [''You are a helpful assistant.'',
                        template_format a (str_list (take 20 rl))]) rd
   \<and> (\<forall>a rl. suffix (''The reviews for the product are: '' @ str_list (take 20 rl) @ nl)
                (template_format a (str_list (take 20 rl))))
   \<and> (map (\<lambda>(a, rl). (a, take 20 rl)) rd = map (\<lambda>(a, rl). (a, take 20 rl)) rd' \<longrightarrow>
        summarize create loads str_list w rd = summarize create loads str_list w rd')
   \<and> (sorted_desc rows \<longrightarrow>
        take 20 (map reviewText rows) = map reviewText (take 20 rows)
        \<and> (\<forall>x \<in> set (take 20 rows). \<forall>y \<in> set (drop 20 rows).
              unixReviewTime y \<le> unixReviewTime x))"
proof -
  have recent: "take 20 (map reviewText rows) = map reviewText (take 20 rows)
        \<and> (\<forall>x \<in> set (take 20 rows). \<forall>y \<in> set (drop 20 rows).
              unixReviewTime y \<le> unixReviewTime x)"
    if "sorted_desc rows"
  proof -
    from that have "sorted_wrt (\<lambda>x y. unixReviewTime y \<le> unixReviewTime x)
        (take 20 rows @ drop 20 rows)"
      by (simp add: sorted_desc_def)
    then show ?thesis
      unfolding sorted_wrt_append by (simp add: take_map)
  qed
  have one: "sent (summarize create loads str_list w rd)
     = map (\<lambda>(a, rl). summary_request a (str_list (take 20 rl))) rd"
    by (rule summarize_fields)
  have prompts: "map (\<lambda>rq. map content (messages rq)) (sent (summarize create loads str_list w rd))
     = map (\<lambda>(a, rl). [''You are a helpful assistant.'',
                        template_format a (str_list (take 20 rl))]) rd"
    unfolding one by (induction rd) (auto simp: summary_request_def)
  have two: "summarize create loads str_list w rd = summarize create loads str_list w rd'"
    if "map (\<lambda>(a, rl). (a, take 20 rl)) rd = map (\<lambda>(a, rl). (a, take 20 rl)) rd'"
    using summarize_take [of create loads str_list w rd]
      summarize_take [of create loads str_list w rd'] that
    by simp
  from one prompts two template_format_suffix recent show ?thesis by blast
qed

theorem summarizer_truncation_witness:
  \<open>map (\<lambda>(a, rl). (a, take 20 rl)) example_review_dict
     = map (\<lambda>(a, rl). (a, take 20 rl)) shortened_review_dict
   \<and> example_review_dict \<noteq> shortened_review_dict
   \<and> summarize scripted_create scripted_loads concat 0 example_review_dict
     = summarize scripted_create scripted_loads concat 0 shortened_review_dict
   \<and> map (\<lambda>rq. map content (messages rq))
       (sent (summarize scripted_create scripted_loads concat 0 shortened_review_dict))
     = [[''You are a helpful assistant.'', template_format ''A'' ''a1a2''],
        [''You are a helpful assistant.'', template_format ''B'' (replicate 20 CHR ''b'')],
        [''You are a helpful assistant.'', template_format ''C'' []]]
   \<and> suffix (''The reviews for the product are: '' @ replicate 20 CHR ''b'' @ nl)
        (template_format ''B'' (replicate 20 CHR ''b''))
   \<and> template_format ''B'' (replicate 20 CHR ''b'') =
        ''\<newline>Here are product reviews for a music product with an ID of B.\<newline> - Respond back only as only JSON!\<newline> - Provide:\<newline>     - the product "description",\<newline>     - the product "name",\<newline>     - a summary of all the reviews as "review_summary",\<newline>     - the "ASIN" and\<newline>     - and the product "features" based on the content of these reviews. \<newline> - The "features" should be a string describing the features and NOT JSON. \<newline> - Do not include the ASIN in the description field.\<newline> \<newline>The reviews for the product are: bbbbbbbbbbbbbbbbbbbb\<newline>''
   \<and> llm (summarize recording_create scripted_loads concat [] shortened_review_dict)
     = sent (summarize recording_create scripted_loads concat [] shortened_review_dict)
   \<and> sorted_desc (stable_sort_desc example_df)
   \<and> take 20 (map reviewText (stable_sort_desc example_df))
     = map reviewText (take 20 (stable_sort_desc example_df))\<close>
proof -
  have sd: "sorted_desc (stable_sort_desc example_df)"
    using sorts_desc_stable by (simp add: sorts_desc_def)
  have h: "map (\<lambda>(a, rl). (a, take 20 rl)) example_review_dict
     = map (\<lambda>(a, rl). (a, take 20 rl)) shortened_review_dict"
    by code_simp
  have d: "example_review_dict \<noteq> shortened_review_dict"
    by code_simp
  note t = summarizer_truncation [of scripted_create scripted_loads concat 0
      example_review_dict shortened_review_dict "stable_sort_desc example_df"]
  have e: "summarize scripted_create scripted_loads concat 0 example_review_dict
     = summarize scripted_create scripted_loads concat 0 shortened_review_dict"
    using t h by blast
  from t have "map (\<lambda>rq. map content (messages rq))
       (sent (summarize scripted_create scripted_loads concat 0 example_review_dict))
     = map (\<lambda>(a, rl). [''You are a helpful assistant.'',
                        template_format a (concat (take 20 rl))]) example_review_dict"
    by blast
  then have c: "map (\<lambda>rq. map content (messages rq))
       (sent (summarize scripted_create scripted_loads concat 0 shortened_review_dict))
     = [[''You are a helpful assistant.'', template_format ''A'' ''a1a2''],
        [''You are a helpful assistant.'', template_format ''B'' (replicate 20 CHR ''b'')],
        [''You are a helpful assistant.'', template_format ''C'' []]]"
    unfolding e by (simp add: example_review_dict_def eval_nat_numeral)
  from t have "\<forall>a rl. suffix (''The reviews for the product are: '' @ concat (take 20 rl) @ nl)
                (template_format a (concat (take 20 rl)))"
    by blast
  from this [rule_format, of "replicate 20 ''b''" "''B''"]
  have s: "suffix (''The reviews for the product are: '' @ replicate 20 CHR ''b'' @ nl)
        (template_format ''B'' (replicate 20 CHR ''b''))"
    by (simp add: eval_nat_numeral)
  have l: \<open>template_format ''B'' (replicate 20 CHR ''b'') =
        ''\<newline>Here are product reviews for a music product with an ID of B.\<newline> - Respond back only as only JSON!\<newline> - Provide:\<newline>     - the product "description",\<newline>     - the product "name",\<newline>     - a summary of all the reviews as "review_summary",\<newline>     - the "ASIN" and\<newline>     - and the product "features" based on the content of these reviews. \<newline> - The "features" should be a string describing the features and NOT JSON. \<newline> - Do not include the ASIN in the description field.\<newline> \<newline>The reviews for the product are: bbbbbbbbbbbbbbbbbbbb\<newline>''\<close>
    by code_simp
  have r: "llm (summarize recording_create scripted_loads concat [] shortened_review_dict)
     = sent (summarize recording_create scripted_loads concat [] shortened_review_dict)"
    by code_simp
  from t sd have k: "take 20 (map reviewText (stable_sort_desc example_df))
     = map reviewText (take 20 (stable_sort_desc example_df))"
    by blast
  from h d e c s l r sd k show ?thesis by blast
qed

subsection \<open>Ingestion\<close>

lemma store_after_snoc:
  "store_after ins w (bs @ [b]) = snd (ins (store_after ins w bs) b)"
  by (simp add: store_after_def)

lemma store_after_Cons:
  "store_after ins w (b # bs) = store_after ins (snd (ins w b)) bs"
  by (simp add: store_after_def)

lemma call_insert_many_fields:
  "call_insert_many ins st = (r, st') \<Longrightarrow>
     calls st' = calls st @ [(items_to_insert st, r)]
     \<and> store st' = snd (ins (store st) (items_to_insert st))
     \<and> items_to_insert st' = items_to_insert st
     \<and> fst (ins (store st) (items_to_insert st)) = r"
  by (auto simp: call_insert_many_def split: prod.splits)

lemma ingest_loop_trace:
  "ingest_loop ins ds st = (r, st') \<Longrightarrow> length (items_to_insert st) < 100 \<Longrightarrow>
   \<exists>new. calls st' = calls st @ new
     \<and> list_all (\<lambda>c. length (fst c) = 100) new
     \<and> calls_ok (butlast new)
     \<and> (\<not> calls_ok new \<longrightarrow> r = snd (last new))
     \<and> store st' = store_after ins (store st) (map fst new)
     \<and> prefix (map Inr (concat (map fst new))) (map Inr (items_to_insert st) @ map new_item ds)
     \<and> (r = None \<longrightarrow> calls_ok new \<and> length (items_to_insert st') < 100
          \<and> map Inr (concat (map fst new) @ items_to_insert st')
              = map Inr (items_to_insert st) @ map new_item ds)"
proof (induction ds arbitrary: st)
  case Nil
  then show ?case by (auto simp: calls_ok_def store_after_def)
next
  case (Cons d rest)
  show ?case
  proof (cases "new_item d")
    case (Inl e)
    with Cons.prems show ?thesis by (auto simp: calls_ok_def store_after_def)
  next
    case (Inr it)
    let ?st1 = "st\<lparr>items_to_insert := items_to_insert st @ [it]\<rparr>"
    show ?thesis
    proof (cases "length (items_to_insert ?st1) = 100")
      case False
      with Cons.prems Inr have run: "ingest_loop ins rest ?st1 = (r, st')"
        by (simp add: Let_def)
      from False Cons.prems have "length (items_to_insert ?st1) < 100" by simp
      from Cons.IH [OF run this] Inr show ?thesis by simp
    next
      case True
      obtain r1 st2 where c: "call_insert_many ins ?st1 = (r1, st2)"
        by (cases "call_insert_many ins ?st1")
      note f = call_insert_many_fields [OF c]
      show ?thesis
      proof (cases r1)
        case (Some e)
        with Cons.prems Inr True c have res: "r = Some e" "st' = st2"
          by (simp_all add: Let_def)
        show ?thesis
          apply (rule exI [of _ "[(items_to_insert ?st1, r1)]"])
          using f res Some True Inr
          by (simp add: calls_ok_def store_after_def)
      next
        case None
        let ?st3 = "st2\<lparr>items_to_insert := []\<rparr>"
        from None Cons.prems Inr True c have run: "ingest_loop ins rest ?st3 = (r, st')"
          by (simp add: Let_def)
        have "length (items_to_insert ?st3) < 100" by simp
        from Cons.IH [OF run this] obtain new where n0:
          "calls st' = calls ?st3 @ new
          \<and> list_all (\<lambda>c. length (fst c) = 100) new
          \<and> calls_ok (butlast new)
          \<and> (\<not> calls_ok new \<longrightarrow> r = snd (last new))
          \<and> store st' = store_after ins (store ?st3) (map fst new)
          \<and> prefix (map Inr (concat (map fst new)))
               (map Inr (items_to_insert ?st3) @ map new_item rest)
          \<and> (r = None \<longrightarrow> calls_ok new \<and> length (items_to_insert st') < 100
          \<and> map Inr (concat (map fst new) @ items_to_insert st')
              = map Inr (items_to_insert ?st3) @ map new_item rest)"
          by (rule exE)
        from n0 have n:
          "calls st' = calls ?st3 @ new"
          "list_all (\<lambda>c. length (fst c) = 100) new"
          "calls_ok (butlast new)"
          "\<not> calls_ok new \<longrightarrow> r = snd (last new)"
          "store st' = store_after ins (store ?st3) (map fst new)"
          "prefix (map Inr (concat (map fst new))) (map Inr (items_to_insert ?st3) @ map new_item rest)"
          "r = None \<longrightarrow> calls_ok new \<and> length (items_to_insert st') < 100
          \<and> map Inr (concat (map fst new) @ items_to_insert st')
              = map Inr (items_to_insert ?st3) @ map new_item rest"
          by blast+
        let ?b = "items_to_insert st @ [it]"
        let ?new = "(?b, None) # new"
        from f None have c1: "calls st' = calls st @ ?new"
          using n(1) by simp
        from True n(2) have c2: "list_all (\<lambda>c. length (fst c) = 100) ?new"
          by simp
        from n(3) have c3: "calls_ok (butlast ?new)"
          by (simp add: calls_ok_def)
        have ne: "new \<noteq> []" if "\<not> calls_ok new"
          using that by (auto simp: calls_ok_def)
        have c4: "\<not> calls_ok ?new \<longrightarrow> r = snd (last ?new)"
          using n(4) ne by (simp add: calls_ok_def)
        from f n(5) have c5: "store st' = store_after ins (store st) (map fst ?new)"
          by (simp add: store_after_Cons)
        have c6: "prefix (map Inr (concat (map fst ?new)))
            (map Inr (items_to_insert st) @ map new_item (d # rest))"
          using n(6) Inr by simp
        have c7: "r = None \<longrightarrow> calls_ok ?new \<and> length (items_to_insert st') < 100
          \<and> map Inr (concat (map fst ?new) @ items_to_insert st')
              = map Inr (items_to_insert st) @ map new_item (d # rest)"
          using n(7) Inr by (simp add: calls_ok_def)
        show ?thesis
          by (rule exI [of _ ?new]) (intro conjI c1 c2 c3 c4 c5 c6 c7)
      qed
    qed
  qed
qed


lemma new_item_ok: "is_product_record d \<Longrightarrow> \<exists>it. new_item d = Inr it"
  by (auto simp: is_product_record_def ProductRecord_fields_def new_item_def get_item_def)

lemma ingest_loop_no_error:
  "list_all is_product_record ds \<Longrightarrow> \<forall>s b. fst (ins s b) = None \<Longrightarrow>
   fst (ingest_loop ins ds st) = None"
proof (induction ds arbitrary: st)
  case Nil
  show ?case by simp
next
  case (Cons d rest)
  from Cons.prems obtain it where it: "new_item d = Inr it"
    using new_item_ok [of d] by auto
  from Cons.prems have rest: "list_all is_product_record rest" by simp
  have c: "r = None" if "call_insert_many ins s = (r, s')" for s r s'
    using that Cons.prems(2) [rule_format, of "store s" "items_to_insert s"]
    by (cases "ins (store s) (items_to_insert s)") (simp add: call_insert_many_def)
  show ?case
    using Cons.IH [OF rest Cons.prems(2)]
    by (auto simp: it Let_def split: prod.splits option.splits dest: c)
qed

lemma length_full_batches:
  "list_all (\<lambda>c. length (fst c) = 100) cs \<Longrightarrow> length (concat (map fst cs)) = 100 * length cs"
  by (induction cs) simp_all


lemma ingest_run:
  obtains (loop_raised) e st0 new where
      "ingest_loop ins ds \<lparr>items_to_insert = [], calls = [], store = w\<rparr> = (Some e, st0)"
      "ingest ins ds w = (Some e, st0)" "calls st0 = new"
      "list_all (\<lambda>c. length (fst c) = 100) new" "calls_ok (butlast new)"
      "\<not> calls_ok new \<longrightarrow> Some e = snd (last new)"
      "store st0 = store_after ins w (map fst new)"
      "prefix (map Inr (concat (map fst new))) (map new_item ds)"
  | (no_remainder) st0 new where
      "ingest_loop ins ds \<lparr>items_to_insert = [], calls = [], store = w\<rparr> = (None, st0)"
      "ingest ins ds w = (None, st0)" "calls st0 = new" "items_to_insert st0 = []"
      "list_all (\<lambda>c. length (fst c) = 100) new" "calls_ok new"
      "store st0 = store_after ins w (map fst new)"
      "map Inr (concat (map fst new)) = map new_item ds"
  | (remainder) st0 new r st where
      "ingest_loop ins ds \<lparr>items_to_insert = [], calls = [], store = w\<rparr> = (None, st0)"
      "ingest ins ds w = (r, st)" "calls st0 = new" "items_to_insert st0 \<noteq> []"
      "length (items_to_insert st0) < 100"
      "list_all (\<lambda>c. length (fst c) = 100) new" "calls_ok new"
      "calls st = new @ [(items_to_insert st0, r)]"
      "store st = store_after ins w (map fst new @ [items_to_insert st0])"
      "map Inr (concat (map fst new) @ items_to_insert st0) = map new_item ds"
      "fst (ins (store st0) (items_to_insert st0)) = r"
proof -
  let ?init = "\<lparr>items_to_insert = [], calls = [], store = w\<rparr>"
  obtain r0 st0 where run: "ingest_loop ins ds ?init = (r0, st0)"
    by (cases "ingest_loop ins ds ?init")
  have "length (items_to_insert ?init) < 100" by simp
  from ingest_loop_trace [OF run this] obtain new where n0:
    "calls st0 = calls ?init @ new
     \<and> list_all (\<lambda>c. length (fst c) = 100) new
     \<and> calls_ok (butlast new)
     \<and> (\<not> calls_ok new \<longrightarrow> r0 = snd (last new))
     \<and> store st0 = store_after ins (store ?init) (map fst new)
     \<and> prefix (map Inr (concat (map fst new))) (map Inr (items_to_insert ?init) @ map new_item ds)
     \<and> (r0 = None \<longrightarrow> calls_ok new \<and> length (items_to_insert st0) < 100
          \<and> map Inr (concat (map fst new) @ items_to_insert st0)
              = map Inr (items_to_insert ?init) @ map new_item ds)"
    by (rule exE)
  then have n:
    "calls st0 = new"
    "list_all (\<lambda>c. length (fst c) = 100) new"
    "calls_ok (butlast new)"
    "\<not> calls_ok new \<longrightarrow> r0 = snd (last new)"
    "store st0 = store_after ins w (map fst new)"
    "prefix (map Inr (concat (map fst new))) (map new_item ds)"
    "r0 = None \<longrightarrow> calls_ok new \<and> length (items_to_insert st0) < 100
          \<and> map Inr (concat (map fst new) @ items_to_insert st0) = map new_item ds"
    by simp_all
  show thesis
  proof (cases r0)
    case (Some e)
    with run have "ingest ins ds w = (Some e, st0)" by (simp add: ingest_def)
    with Some run n show thesis by (intro loop_raised [of e st0 new]) simp_all
  next
    case None
    with n have ok: "calls_ok new" "length (items_to_insert st0) < 100"
      "map Inr (concat (map fst new) @ items_to_insert st0) = map new_item ds"
      by simp_all
    show thesis
    proof (cases "items_to_insert st0 = []")
      case True
      with None run have "ingest ins ds w = (None, st0)" by (simp add: ingest_def)
      with None run n ok True show thesis by (intro no_remainder [of st0 new]) simp_all
    next
      case False
      obtain r st where c: "call_insert_many ins st0 = (r, st)"
        by (cases "call_insert_many ins st0")
      with None run False have res: "ingest ins ds w = (r, st)" by (simp add: ingest_def)
      note f = call_insert_many_fields [OF c]
      from f n have "calls st = new @ [(items_to_insert st0, r)]"
        "store st = store_after ins w (map fst new @ [items_to_insert st0])"
        "fst (ins (store st0) (items_to_insert st0)) = r"
        by (simp_all add: store_after_snoc)
      with None run n ok False res show thesis
        by (intro remainder [of st0 r st new]) simp_all
    qed
  qed
qed


lemma ceil_div_100: "\<lceil>real n / 100\<rceil> = int ((n + 99) div 100)"
proof -
  have "\<lceil>real n / 100\<rceil> = \<lceil>(of_int (int n) :: real) / of_int 100\<rceil>" by simp
  also have "\<dots> = - (- int n div 100)" by (rule ceiling_divide_eq_div)
  also have "\<dots> = int ((n + 99) div 100)" by (simp add: zdiv_int)
  finally show ?thesis .
qed

lemma batches_exact:
  assumes "(n::nat) = 100 * k"
  shows "k = n div 100" and "n mod 100 = 0" and "k = (n + 99) div 100"
  using assms by simp_all

lemma batches_remainder:
  assumes "(n::nat) = 100 * k + r" and "r < 100" and "0 < r"
  shows "k = n div 100" and "r = n mod 100" and "Suc k = (n + 99) div 100"
    and "n mod 100 \<noteq> 0" and "0 < n"
proof -
  from assms show "k = n div 100" and "r = n mod 100" and "0 < n"
    by simp_all
  from assms show "n mod 100 \<noteq> 0"
    by simp
  have "n + 99 = 100 * Suc k + (r - 1)"
    using assms by simp
  moreover have "r - 1 < 100"
    using assms by simp
  ultimately show "Suc k = (n + 99) div 100"
    by simp
qed

lemma calls_ok_butlast: "calls_ok cs \<Longrightarrow> calls_ok (butlast cs)"
  by (auto simp: calls_ok_def list_all_iff dest: in_set_butlastD)

lemma calls_ok_snoc: "calls_ok (cs @ [c]) = (calls_ok cs \<and> snd c = None)"
  by (simp add: calls_ok_def)

lemma full_batches_le:
  "list_all (\<lambda>c. length (fst c) = 100) cs \<Longrightarrow> list_all (\<lambda>c. length (fst c) \<le> 100) cs"
  by (simp add: list_all_iff)

text \<open>
  C7. Nothing in the ingestion cell catches an exception. In the trace of the calls
  made, every call but the last returned normally, so no call follows one that raised;
  when a call raised, the cell ends with that very exception. The store is in the state
  that the calls of the trace, the raising one included, left it in: what the earlier
  batches stored stays stored. The items passed are an initial part of the items of
  \<^verbatim>\<open>data_list\<close>, in order.
\<close>

theorem ingestion_failure_propagation:
  "calls_ok (butlast (calls (snd (ingest ins ds w))))
   \<and> (\<not> calls_ok (calls (snd (ingest ins ds w))) \<longrightarrow>
        fst (ingest ins ds w) = snd (last (calls (snd (ingest ins ds w))))
        \<and> fst (ingest ins ds w) \<noteq> None)
   \<and> store (snd (ingest ins ds w)) = store_after ins w (map fst (calls (snd (ingest ins ds w))))
   \<and> prefix (map Inr (concat (map fst (calls (snd (ingest ins ds w)))))) (map new_item ds)"
proof (cases rule: ingest_run [of ins ds w])
  case (loop_raised e st0 new)
  have "snd (last new) = Some e" if "\<not> calls_ok new"
    using that loop_raised(6) by simp
  with loop_raised show ?thesis by simp
next
  case (no_remainder st0 new)
  then show ?thesis by (simp add: calls_ok_butlast)
next
  case (remainder st0 new r st)
  from remainder show ?thesis
    by (simp add: calls_ok_snoc)
qed

text \<open>
  C2. For \<open>N\<close> records with the five fields and a store whose calls return normally,
  the cell makes \<open>\<lceil>N / 100\<rceil>\<close> calls, each with at most 100 items; the last call has
  \<open>N mod 100\<close> items, or 100 when \<open>N\<close> is a positive multiple of 100. The loop makes
  \<open>N div 100\<close> calls of exactly 100 items and leaves \<open>N mod 100\<close> items, which are
  passed in one more call after the loop when there are any. The items passed are the
  items of \<^verbatim>\<open>data_list\<close>, in order.
\<close>

theorem ingestion_batching:
  assumes "list_all is_product_record ds" and "\<forall>s b. fst (ins s b) = None"
  shows "fst (ingest ins ds w) = None
    \<and> length (calls (snd (ingest ins ds w))) = (length ds + 99) div 100
    \<and> int (length (calls (snd (ingest ins ds w)))) = \<lceil>real (length ds) / 100\<rceil>
    \<and> list_all (\<lambda>c. length (fst c) \<le> 100) (calls (snd (ingest ins ds w)))
    \<and> (0 < length ds \<longrightarrow> length (fst (last (calls (snd (ingest ins ds w)))))
          = (if length ds mod 100 = 0 then 100 else length ds mod 100))
    \<and> map Inr (concat (map fst (calls (snd (ingest ins ds w))))) = map new_item ds
    \<and> length (calls (snd (ingest_loop ins ds \<lparr>items_to_insert = [], calls = [], store = w\<rparr>)))
        = length ds div 100
    \<and> list_all (\<lambda>c. length (fst c) = 100)
        (calls (snd (ingest_loop ins ds \<lparr>items_to_insert = [], calls = [], store = w\<rparr>)))
    \<and> length (items_to_insert (snd (ingest_loop ins ds \<lparr>items_to_insert = [], calls = [], store = w\<rparr>)))
        = length ds mod 100
    \<and> calls (snd (ingest ins ds w))
        = calls (snd (ingest_loop ins ds \<lparr>items_to_insert = [], calls = [], store = w\<rparr>))
          @ (if length ds mod 100 = 0 then []
             else [(items_to_insert (snd (ingest_loop ins ds
                      \<lparr>items_to_insert = [], calls = [], store = w\<rparr>)), None)])"
proof -
  let ?init = "\<lparr>items_to_insert = [], calls = [], store = w\<rparr>"
  let ?n = "length ds"
  have noerr: "fst (ingest_loop ins ds ?init) = None"
    using assms by (rule ingest_loop_no_error)
  have ceil: "int k = \<lceil>real ?n / 100\<rceil>" if "k = (?n + 99) div 100" for k
    using that by (simp add: ceil_div_100)
  show ?thesis
  proof (cases rule: ingest_run [of ins ds w])
    case (loop_raised e st0 new)
    with noerr show ?thesis by simp
  next
    case (no_remainder st0 new)
    have "length (concat (map fst new)) = ?n"
      using arg_cong [OF no_remainder(8), of length] by (simp only: length_map)
    with length_full_batches [OF no_remainder(5)] have n: "?n = 100 * length new" by simp
    note k = batches_exact [OF n]
    have l: "length (fst (last new)) = 100" if "0 < ?n"
    proof -
      from that n have "new \<noteq> []" by auto
      then have "last new \<in> set new" by simp
      with no_remainder(5) show ?thesis by (simp add: list_all_iff)
    qed
    from no_remainder k l ceil [OF k(3)] full_batches_le [OF no_remainder(5)]
    show ?thesis by simp
  next
    case (remainder st0 new r st)
    have r: "r = None"
      using assms(2) remainder(11) by auto
    let ?r = "length (items_to_insert st0)"
    have "length (concat (map fst new) @ items_to_insert st0) = ?n"
      using arg_cong [OF remainder(10), of length] by (simp only: length_map)
    with length_full_batches [OF remainder(6)] have n: "?n = 100 * length new + ?r"
      by simp
    from remainder(4) have pos: "0 < ?r" by simp
    note k = batches_remainder [OF n remainder(5) pos]
    from remainder r k(3) have c: "length (calls (snd (ingest ins ds w))) = (?n + 99) div 100"
      by simp
    from remainder r k ceil [OF c] full_batches_le [OF remainder(6)]
    show ?thesis by simp
  qed
qed



lemma ingest_loop_fill:
  "new_item d = Inr it \<Longrightarrow> length (items_to_insert st) + n < 100 \<Longrightarrow>
   ingest_loop ins (replicate n d @ rest) st
     = ingest_loop ins rest (st\<lparr>items_to_insert := items_to_insert st @ replicate n it\<rparr>)"
proof (induction n arbitrary: st)
  case 0
  show ?case by simp
next
  case (Suc n)
  let ?st1 = "st\<lparr>items_to_insert := items_to_insert st @ [it]\<rparr>"
  from Suc.prems have "length (items_to_insert ?st1) + n < 100" by simp
  from Suc.IH [OF Suc.prems(1) this] Suc.prems show ?case
    by (simp add: Let_def replicate_append_same)
qed

lemma ingest_loop_fill_end:
  "new_item d = Inr it \<Longrightarrow> length (items_to_insert st) + n < 100 \<Longrightarrow>
   ingest_loop ins (replicate n d) st
     = (None, st\<lparr>items_to_insert := items_to_insert st @ replicate n it\<rparr>)"
  using ingest_loop_fill [of d it st n ins "[]"] by simp

lemma ingest_loop_flush:
  "new_item d = Inr it \<Longrightarrow> length (items_to_insert st) = 99 \<Longrightarrow>
   ingest_loop ins (d # rest) st
     = (case ins (store st) (items_to_insert st @ [it]) of
          (Some e, w') \<Rightarrow>
            (Some e, st\<lparr>items_to_insert := items_to_insert st @ [it],
                         calls := calls st @ [(items_to_insert st @ [it], Some e)],
                         store := w'\<rparr>)
        | (None, w') \<Rightarrow>
            ingest_loop ins rest
              (st\<lparr>calls := calls st @ [(items_to_insert st @ [it], None)],
                  store := w',
                  items_to_insert := []\<rparr>))"
  by (simp add: Let_def call_insert_many_def split: prod.splits option.splits)

lemma new_item_example: "new_item example_record = Inr example_item"
  by (simp add: new_item_def get_item_def example_record_def example_item_def)

lemma t250: "replicate 250 d = replicate 99 d @ d # replicate 99 d @ d # replicate 50 d"
proof -
  have "replicate 250 d = replicate (99 + (1 + (99 + (1 + 50)))) d" by simp
  then show ?thesis
    unfolding replicate_add by simp
qed

lemma replicate_99_snoc: "replicate 99 x @ [x] = replicate 100 x"
proof -
  have "(100::nat) = Suc 99" by simp
  then show ?thesis by (simp only: replicate_Suc replicate_append_same)
qed

lemma failing_run:
  "ingest failing_store (replicate 250 example_record) []
     = (Some (ServiceError ''unavailable''),
        \<lparr>items_to_insert = replicate 100 example_item,
         calls = [(replicate 100 example_item, None),
                  (replicate 100 example_item, Some (ServiceError ''unavailable''))],
         store = replicate 100 example_item @ replicate 10 example_item\<rparr>)"
proof -
  note n = new_item_example
  have ne: "replicate 100 example_item \<noteq> []" by simp
  note a = replicate_99_snoc
  have t: "take 10 (replicate 100 example_item) = replicate 10 example_item"
    by simp
  show ?thesis
    unfolding ingest_def t250 [of example_record]
    by (simp add: ingest_loop_fill [OF n] ingest_loop_fill_end [OF n] ingest_loop_flush [OF n]
        failing_store_def a ne t del: ingest_loop.simps)
qed

lemma appending_run:
  "ingest appending_store (replicate 250 example_record) []
     = (None,
        \<lparr>items_to_insert = replicate 50 example_item,
         calls = [(replicate 100 example_item, None), (replicate 100 example_item, None),
                  (replicate 50 example_item, None)],
         store = replicate 100 example_item @ replicate 100 example_item
                   @ replicate 50 example_item\<rparr>)"
proof -
  note n = new_item_example
  note a = replicate_99_snoc
  show ?thesis
    unfolding ingest_def t250 [of example_record]
    by (simp add: ingest_loop_fill [OF n] ingest_loop_fill_end [OF n] ingest_loop_flush [OF n]
        appending_store_def call_insert_many_def a del: ingest_loop.simps)
qed

theorem ingestion_batching_witness:
  "list_all is_product_record (replicate 250 example_record)
   \<and> (\<forall>s b. fst (appending_store s b) = None)
   \<and> fst (ingest appending_store (replicate 250 example_record) []) = None
   \<and> length (calls (snd (ingest appending_store (replicate 250 example_record) []))) = 3
   \<and> length (fst (last (calls (snd (ingest appending_store (replicate 250 example_record) [])))))
       = 50
   \<and> map (\<lambda>c. length (fst c))
        (calls (snd (ingest appending_store (replicate 250 example_record) []))) = [100, 100, 50]"
proof -
  have h1: "list_all is_product_record (replicate 250 example_record)"
    by (simp add: list_all_iff is_product_record_def ProductRecord_fields_def example_record_def)
  have h2: "\<forall>s b. fst (appending_store s b) = None"
    by (simp add: appending_store_def)
  have v: "map (\<lambda>c. length (fst c))
        (calls (snd (ingest appending_store (replicate 250 example_record) []))) = [100, 100, 50]"
    by (simp add: appending_run)
  from ingestion_batching [OF h1 h2, of "[]"]
  have "fst (ingest appending_store (replicate 250 example_record) []) = None"
    and "length (calls (snd (ingest appending_store (replicate 250 example_record) [])))
      = (length (replicate 250 example_record) + 99) div 100"
    and "0 < length (replicate 250 example_record) \<longrightarrow>
      length (fst (last (calls (snd (ingest appending_store (replicate 250 example_record) [])))))
        = (if length (replicate 250 example_record) mod 100 = 0 then 100
           else length (replicate 250 example_record) mod 100)"
    by blast+
  then show ?thesis using h1 h2 v by simp
qed

theorem ingestion_failure_propagation_witness:
  "\<not> calls_ok (calls (snd (ingest failing_store (replicate 250 example_record) [])))
   \<and> fst (ingest failing_store (replicate 250 example_record) [])
       = snd (last (calls (snd (ingest failing_store (replicate 250 example_record) []))))
   \<and> fst (ingest failing_store (replicate 250 example_record) [])
       = Some (ServiceError ''unavailable'')
   \<and> map (\<lambda>c. (length (fst c), snd c))
        (calls (snd (ingest failing_store (replicate 250 example_record) [])))
       = [(100, None), (100, Some (ServiceError ''unavailable''))]
   \<and> length (store (snd (ingest failing_store (replicate 250 example_record) []))) = 110"
proof -
  have n: "\<not> calls_ok (calls (snd (ingest failing_store (replicate 250 example_record) [])))"
    by (simp add: failing_run calls_ok_def)
  have v: "map (\<lambda>c. (length (fst c), snd c))
        (calls (snd (ingest failing_store (replicate 250 example_record) [])))
       = [(100, None), (100, Some (ServiceError ''unavailable''))]"
    by (simp add: failing_run)
  have s: "length (store (snd (ingest failing_store (replicate 250 example_record) []))) = 110"
    by (simp add: failing_run)
  have e: "fst (ingest failing_store (replicate 250 example_record) [])
       = Some (ServiceError ''unavailable'')"
    by (simp add: failing_run)
  from ingestion_failure_propagation [of failing_store "replicate 250 example_record" "[]"] n
  have "fst (ingest failing_store (replicate 250 example_record) [])
      = snd (last (calls (snd (ingest failing_store (replicate 250 example_record) []))))"
    by blast
  with n v s e show ?thesis by blast
qed

subsection \<open>Retrieval\<close>












subsection \<open>The interactive assistant\<close>






lemma stream_loop_eq:
  "list_all (\<lambda>ch. ch \<noteq> []) chunks \<Longrightarrow>
   stream_loop chunks pm
     = (map (\<lambda>k. pm @ concat (take (Suc k) (deltas chunks))) [0..<length (deltas chunks)], None)"
proof (induction chunks arbitrary: pm)
  case Nil
  show ?case by simp
next
  case (Cons ch rest)
  from Cons.prems obtain delta others where ch: "ch = delta # others"
    by (cases ch) auto
  from Cons.prems have rest: "list_all (\<lambda>ch. ch \<noteq> []) rest" by simp
  show ?case
  proof (cases delta)
    case None
    with ch Cons.IH [OF rest, of pm] show ?thesis by simp
  next
    case (Some s)
    with ch Cons.IH [OF rest, of "pm @ s"] show ?thesis
      by (simp add: map_upt_Suc del: upt_Suc)
  qed
qed

lemma deltas_filter:
  "list_all (\<lambda>ch. ch \<noteq> []) chunks \<Longrightarrow>
   deltas chunks = map (\<lambda>ch. the (hd ch)) (filter (\<lambda>ch. hd ch \<noteq> None) chunks)"
  by (induction chunks rule: deltas.induct) simp_all

lemma predict_yielded:
  "hybrid w message 5 = Inr objects \<Longrightarrow>
   yielded (predict hybrid str_props (\<lambda>req. Inr chunks) w message history)
     = fst (stream_loop chunks [])
   \<and> raised (predict hybrid str_props (\<lambda>req. Inr chunks) w message history)
     = snd (stream_loop chunks [])"
  by (simp add: predict_def get_context_def Let_def split: prod.splits)

text \<open>
  C10. For a finite stream whose chunks all have a first choice, \<open>predict\<close> yields one
  value for each chunk whose delta content is not \<^verbatim>\<open>None\<close> and nothing for the others;
  the \<open>k\<close>-th value yielded is the concatenation of the first \<open>k\<close> such contents; so
  each value yielded is a prefix of the next; and the generator ends without an
  exception.
\<close>

theorem streaming_prefix_monotonicity:
  fixes hybrid :: "'w \<Rightarrow> string \<Rightarrow> int \<Rightarrow> py_error + 'o list"
    and str_props :: "'o \<Rightarrow> string" and w :: 'w and message :: string
    and history :: "(string \<times> string) list" and chunks :: "chunk list"
    and ys :: "string list"
  defines "ys \<equiv> yielded (predict hybrid str_props (\<lambda>req. Inr chunks) w message history)"
  assumes "hybrid w message 5 = Inr objects" and "list_all (\<lambda>ch. ch \<noteq> []) chunks"
  shows "length ys = length (filter (\<lambda>ch. hd ch \<noteq> None) chunks)
    \<and> deltas chunks = map (\<lambda>ch. the (hd ch)) (filter (\<lambda>ch. hd ch \<noteq> None) chunks)
    \<and> (\<forall>k < length ys. ys ! k = concat (take (Suc k) (deltas chunks)))
    \<and> (\<forall>k. Suc k < length ys \<longrightarrow> prefix (ys ! k) (ys ! Suc k))
    \<and> raised (predict hybrid str_props (\<lambda>req. Inr chunks) w message history) = None"
proof -
  let ?ds = "deltas chunks"
  have y: "ys = map (\<lambda>k. concat (take (Suc k) ?ds)) [0..<length ?ds]"
    and r: "raised (predict hybrid str_props (\<lambda>req. Inr chunks) w message history) = None"
    using predict_yielded [where hybrid = hybrid and w = w and message = message
        and objects = objects and str_props = str_props and chunks = chunks
        and history = history] assms(2)
      stream_loop_eq [OF assms(3), of "[]"]
    by (simp_all add: ys_def)
  have d: "?ds = map (\<lambda>ch. the (hd ch)) (filter (\<lambda>ch. hd ch \<noteq> None) chunks)"
    using assms(3) by (rule deltas_filter)
  have len: "length ys = length ?ds"
    by (simp add: y)
  have nth: "ys ! k = concat (take (Suc k) ?ds)" if "k < length ys" for k
    using that by (simp add: y)
  have pre: "prefix (ys ! k) (ys ! Suc k)" if "Suc k < length ys" for k
  proof -
    from that len have "Suc k < length ?ds" by simp
    then have "take (Suc (Suc k)) ?ds = take (Suc k) ?ds @ [?ds ! Suc k]"
      by (rule take_Suc_conv_app_nth)
    with that show ?thesis by (simp add: nth)
  qed
  have len': "length ys = length (filter (\<lambda>ch. hd ch \<noteq> None) chunks)"
    using len arg_cong [OF d, of length] by simp
  from len' d nth pre r show ?thesis by blast
qed

theorem streaming_prefix_monotonicity_witness:
  "first_k example_store ''strings?'' 5 = Inr example_store
   \<and> list_all (\<lambda>ch. ch \<noteq> []) example_chunks
   \<and> yielded (predict first_k (\<lambda>x. x) (\<lambda>req. Inr example_chunks) example_store
        ''strings?'' example_history) = [''Try'', ''Try a'', ''Try a tuner'']
   \<and> length (yielded (predict first_k (\<lambda>x. x) (\<lambda>req. Inr example_chunks) example_store
        ''strings?'' example_history))
       = length (filter (\<lambda>ch. hd ch \<noteq> None) example_chunks)
   \<and> prefix ''Try a'' ''Try a tuner''
   \<and> raised (predict first_k (\<lambda>x. x) (\<lambda>req. Inr example_chunks) example_store
        ''strings?'' example_history) = None"
proof -
  let ?ys = "yielded (predict first_k (\<lambda>x. x) (\<lambda>req. Inr example_chunks) example_store
        ''strings?'' example_history)"
  have h: "first_k example_store ''strings?'' 5 = Inr example_store"
    by (simp add: first_k_def example_store_def)
  have c: "list_all (\<lambda>ch. ch \<noteq> []) example_chunks"
    by (simp add: example_chunks_def)
  have d: "deltas example_chunks = [''Try'', '' a'', '' tuner'']"
    by (simp add: example_chunks_def)
  note t = streaming_prefix_monotonicity [where hybrid = first_k and w = example_store
      and message = "''strings?''" and objects = example_store and chunks = example_chunks
      and str_props = "\<lambda>x. x" and history = example_history, OF h c]
  from t have len: "length ?ys = length (filter (\<lambda>ch. hd ch \<noteq> None) example_chunks)"
    and r: "raised (predict first_k (\<lambda>x. x) (\<lambda>req. Inr example_chunks) example_store
        ''strings?'' example_history) = None"
    by blast+
  then have l3: "length ?ys = 3"
    by (simp add: example_chunks_def)
  from t have nth: "\<forall>k < length ?ys. ?ys ! k = concat (take (Suc k) (deltas example_chunks))"
    by blast
  have v: "?ys = [''Try'', ''Try a'', ''Try a tuner'']"
  proof (rule nth_equalityI)
    show "length ?ys = length [''Try'', ''Try a'', ''Try a tuner'']"
      using l3 by simp
  next
    fix i
    assume "i < length ?ys"
    with l3 have "i = 0 \<or> i = 1 \<or> i = 2" by auto
    with nth l3 show "?ys ! i = [''Try'', ''Try a'', ''Try a tuner''] ! i"
      by (auto simp: d)
  qed
  from t have "\<forall>k. Suc k < length ?ys \<longrightarrow> prefix (?ys ! k) (?ys ! Suc k)"
    by blast
  with l3 have "prefix (?ys ! 1) (?ys ! Suc 1)" by simp
  then have p: "prefix ''Try a'' ''Try a tuner''"
    unfolding v by simp
  from h c v len p r show ?thesis by blast
qed

end
